theory Spec2Isabelle
  imports Main "HOL-Library.AList" "HOL-Library.Sublist"
begin

section \<open>Package gw: the state-tracking variant\<close>

text \<open>
  The package keeps three package-level variables: the registered matchers, the ignore
  patterns and the map of pending states. They are gathered in one record that every
  operation takes and returns. A compiled regular expression is represented by its
  \<open>MatchString\<close> method; \<open>regexp.Compile\<close> belongs to the standard library and is a
  parameter of the operations that call it.
\<close>

text \<open>
  \<open>FileState\<close> is an integer type in Go with three named constants. The datatype has
  the constants only; a call with another integer is not modelled.
\<close>

datatype FileState = Clean | Changed | Deleted

type_synonym error = string

type_synonym regexp = "string \<Rightarrow> bool"

type_synonym compiler = "string \<Rightarrow> error + regexp"

datatype panic = Panic error

text \<open>
  One callback invocation made by \<open>filepath.Walk\<close>: the path, whether it is a directory,
  and the error handed to the callback.
\<close>

record visit =
  vpath :: string
  visdir :: bool
  verr :: "error option"

text \<open>
  A handler is user code. The calls into the package that it makes are taken to be calls
  of \<open>SetState\<close> and \<open>SetStates\<close>, as in the package documentation; a handler that
  registers matchers or runs \<open>Dispatch\<close> or \<open>Watch\<close> itself is outside the model, and
  so is a handler that does not return. Everything else a handler does is a change of
  the outside world \<open>'w\<close>. A handler invocation is therefore a tree of such calls that
  ends with the returned error and the new world. A call of \<open>SetStates\<close> carries the
  visits that \<open>filepath.Walk\<close> makes at that moment and continues with the error it
  returned.
\<close>

datatype 'w action =
    Return "error option" 'w
  | CallSetState string FileState "'w action"
  | CallSetStates string FileState "visit list" "error option \<Rightarrow> 'w action"

type_synonym 'w Handler = "string \<Rightarrow> FileState \<Rightarrow> 'w \<Rightarrow> 'w action"

record 'w matcher =
  pattern :: regexp
  f :: "'w Handler"

text \<open>
  The callbacks that the package invokes, in the order of invocation: \<open>Log\<close> from
  \<open>SetState\<close>, and the handlers (named by their position in \<open>matchers\<close>) from
  \<open>Dispatch\<close>. The field \<open>trace\<close> of the package state records them; no operation
  reads it.
\<close>

datatype callback = Logged string FileState | Invoked nat string FileState

text \<open>The line that \<open>logEvent\<close>, the initial value of \<open>Log\<close>, prints.\<close>

definition logEvent :: "string \<Rightarrow> FileState \<Rightarrow> string" where
  "logEvent path state =
     (case state of Clean \<Rightarrow> ''clean'' | Changed \<Rightarrow> ''changed'' | Deleted \<Rightarrow> ''deleted'')
       @ '' '' @ path"

text \<open>
  The Go map \<open>states\<close> is an association list: \<open>delete\<close> removes the key, an assignment
  overwrites or adds it. The order of the list has no meaning; \<open>nextDirty\<close> below may
  return any entry.
\<close>

record 'w gw =
  matchers :: "'w matcher list"
  ignores :: "regexp list"
  states :: "(string \<times> FileState) list"
  trace :: "callback list"
  world :: 'w

definition MustCompile :: "compiler \<Rightarrow> string \<Rightarrow> panic + regexp" where
  "MustCompile compile str =
     (case compile str of Inl e \<Rightarrow> Inl (Panic e) | Inr r \<Rightarrow> Inr r)"

text \<open>
  \<open>Match\<close> and \<open>Ignore\<close> have no result in Go. The model returns the panic, if any,
  beside the package state after the call.
\<close>

definition Match :: "compiler \<Rightarrow> string \<Rightarrow> 'w Handler \<Rightarrow> 'w gw \<Rightarrow> panic option \<times> 'w gw" where
  "Match compile pat h s =
     (case MustCompile compile pat of
        Inl p \<Rightarrow> (Some p, s)
      | Inr r \<Rightarrow> (None, s\<lparr>matchers := matchers s @ [\<lparr>pattern = r, f = h\<rparr>]\<rparr>))"

definition Ignore :: "compiler \<Rightarrow> string \<Rightarrow> 'w gw \<Rightarrow> panic option \<times> 'w gw" where
  "Ignore compile pat s =
     (case MustCompile compile pat of
        Inl p \<Rightarrow> (Some p, s)
      | Inr r \<Rightarrow> (None, s\<lparr>ignores := ignores s @ [r]\<rparr>))"

fun hasMatcher_loop :: "'w matcher list \<Rightarrow> string \<Rightarrow> bool" where
  "hasMatcher_loop [] path = False"
| "hasMatcher_loop (m # ms) path = (if pattern m path then True else hasMatcher_loop ms path)"

definition hasMatcher :: "'w gw \<Rightarrow> string \<Rightarrow> bool" where
  "hasMatcher s path = hasMatcher_loop (matchers s) path"

fun hasIgnore_loop :: "regexp list \<Rightarrow> string \<Rightarrow> bool" where
  "hasIgnore_loop [] path = False"
| "hasIgnore_loop (v # vs) path = (if v path then True else hasIgnore_loop vs path)"

definition hasIgnore :: "'w gw \<Rightarrow> string \<Rightarrow> bool" where
  "hasIgnore s path = hasIgnore_loop (ignores s) path"

definition SetState :: "string \<Rightarrow> FileState \<Rightarrow> 'w gw \<Rightarrow> 'w gw" where
  "SetState path state s =
     (if \<not> hasMatcher s path then s
      else
        (let s1 = (if state = Clean
                   then s\<lparr>states := AList.delete path (states s)\<rparr>
                   else s\<lparr>states := AList.update path state (states s)\<rparr>)
         in s1\<lparr>trace := trace s1 @ [Logged path state]\<rparr>))"

fun SetStates_walk :: "regexp \<Rightarrow> FileState \<Rightarrow> visit list \<Rightarrow> 'w gw \<Rightarrow> error option \<times> 'w gw" where
  "SetStates_walk r state [] s = (None, s)"
| "SetStates_walk r state (v # vs) s =
     (case verr v of
        Some e \<Rightarrow> (Some e, s)
      | None \<Rightarrow>
          if \<not> r (vpath v) \<or> hasIgnore s (vpath v) then SetStates_walk r state vs s
          else SetStates_walk r state vs (SetState (vpath v) state s))"

definition SetStates :: "compiler \<Rightarrow> string \<Rightarrow> FileState \<Rightarrow> visit list \<Rightarrow> 'w gw \<Rightarrow> error option \<times> 'w gw" where
  "SetStates compile pat state visits s =
     (case compile pat of
        Inl e \<Rightarrow> (Some e, s)
      | Inr r \<Rightarrow> SetStates_walk r state visits s)"

text \<open>Running a handler: its calls are carried out on the package state, in order.\<close>

primrec run_action :: "compiler \<Rightarrow> 'w action \<Rightarrow> 'w gw \<Rightarrow> error option \<times> 'w gw" where
  "run_action compile (Return e w) s = (e, s\<lparr>world := w\<rparr>)"
| "run_action compile (CallSetState path state k) s = run_action compile k (SetState path state s)"
| "run_action compile (CallSetStates pat state visits k) s =
     (case SetStates compile pat state visits s of
        (r, s1) \<Rightarrow> run_action compile (k r) s1)"

text \<open>
  \<open>nextDirty\<close> returns the first entry of an iteration over the map, and Go starts the
  iteration at an entry of its choice. The choice is the argument \<open>ch\<close>.
\<close>

definition nextDirty :: "nat \<Rightarrow> (string \<times> FileState) list \<Rightarrow> string \<times> FileState \<times> bool" where
  "nextDirty ch m =
     (if m = [] then ('''', Clean, False)
      else (fst (m ! (ch mod length m)), snd (m ! (ch mod length m)), True))"

text \<open>The inner loop of \<open>Dispatch\<close>, over the matchers paired with their positions.\<close>

fun Dispatch_matchers ::
  "compiler \<Rightarrow> (nat \<times> 'w matcher) list \<Rightarrow> string \<Rightarrow> FileState \<Rightarrow> 'w gw \<Rightarrow> error option \<times> 'w gw" where
  "Dispatch_matchers compile [] path state s = (None, s)"
| "Dispatch_matchers compile ((i, m) # ms) path state s =
     (if pattern m path then
        (case run_action compile (f m path state (world s))
                (s\<lparr>trace := trace s @ [Invoked i path state]\<rparr>) of
           (Some err, s1) \<Rightarrow> (Some err, s1)
         | (None, s1) \<Rightarrow> Dispatch_matchers compile ms path state s1)
      else Dispatch_matchers compile ms path state s)"

text \<open>
  The outer loop of \<open>Dispatch\<close>. Each iteration takes one choice for \<open>nextDirty\<close> from
  the list \<open>chs\<close>; a run that needs more iterations than there are choices has not
  returned, which is the value \<open>None\<close>.
\<close>

fun Dispatch :: "compiler \<Rightarrow> nat list \<Rightarrow> 'w gw \<Rightarrow> (error option \<times> 'w gw) option" where
  "Dispatch compile [] s =
     (case nextDirty 0 (states s) of
        (path, state, ok) \<Rightarrow> if \<not> ok then Some (None, s) else None)"
| "Dispatch compile (ch # chs) s =
     (case nextDirty ch (states s) of
        (path, state, ok) \<Rightarrow>
          if \<not> ok then Some (None, s)
          else
            (case Dispatch_matchers compile (enumerate 0 (matchers s)) path state
                    (SetState path Clean s) of
               (Some err, s1) \<Rightarrow> Some (Some err, s1)
             | (None, s1) \<Rightarrow> Dispatch compile chs s1))"


subsection \<open>Watch\<close>

text \<open>
  The watcher of \<open>fsnotify\<close> is the list of the directories added to it; \<open>add\<close> is the
  answer of \<open>w.Add\<close> for a path.
\<close>

fun watchRecursive ::
  "(string \<Rightarrow> error option) \<Rightarrow> visit list \<Rightarrow> string list \<Rightarrow> 'w gw \<Rightarrow> error option \<times> string list \<times> 'w gw" where
  "watchRecursive add [] w s = (None, w, s)"
| "watchRecursive add (v # vs) w s =
     (case verr v of
        Some e \<Rightarrow> (Some e, w, s)
      | None \<Rightarrow>
          if \<not> visdir v \<or> hasIgnore s (vpath v) then watchRecursive add vs w s
          else
            (case add (vpath v) of
               Some e \<Rightarrow> (Some e, w, SetState (vpath v) Clean s)
             | None \<Rightarrow> watchRecursive add vs (w @ [vpath v]) (SetState (vpath v) Clean s)))"

text \<open>
  An event of the watcher, with the answers the operating system gives while it is
  handled: the result of \<open>os.Stat\<close> on the name (an error, or whether it is a directory)
  and the visits of the walk below the name.
\<close>

record fsevent =
  Name :: string
  Create :: bool
  Remove :: bool
  Stat :: "error + bool"
  Walk :: "visit list"

text \<open>
  The cases of the \<open>select\<close> statement, in the order in which they become ready. The
  timer case carries the choices that \<open>nextDirty\<close> makes during its \<open>Dispatch\<close>.
\<close>

datatype ready = TimeAfter "nat list" | Events fsevent | Errors error

text \<open>
  \<open>Watch\<close> returns only with an error. After a finite list of ready cases it has either
  returned or is blocked in \<open>select\<close>.
\<close>

datatype 'w outcome = Returned error "'w gw" | Waiting "'w gw"

definition Watch_created ::
  "(string \<Rightarrow> error option) \<Rightarrow> fsevent \<Rightarrow> string list \<Rightarrow> 'w gw \<Rightarrow> error option \<times> string list \<times> 'w gw" where
  "Watch_created add e w s =
     (if Create e then
        (case Stat e of
           Inl err \<Rightarrow> (Some err, w, s)
         | Inr isdir \<Rightarrow> if isdir then watchRecursive add (Walk e) w s else (None, w, s))
      else (None, w, s))"

fun Watch_loop ::
  "compiler \<Rightarrow> (string \<Rightarrow> error option) \<Rightarrow> ready list \<Rightarrow> string list \<Rightarrow> 'w gw \<Rightarrow> 'w outcome option" where
  "Watch_loop compile add [] w s = Some (Waiting s)"
| "Watch_loop compile add (TimeAfter chs # rs) w s =
     (case Dispatch compile chs s of
        None \<Rightarrow> None
      | Some (r, s1) \<Rightarrow> Watch_loop compile add rs w s1)"
| "Watch_loop compile add (Events e # rs) w s =
     (if hasIgnore s (Name e) then Watch_loop compile add rs w s
      else
        (case Watch_created add e w s of
           (Some err, w1, s1) \<Rightarrow> Some (Returned err s1)
         | (None, w1, s1) \<Rightarrow>
             Watch_loop compile add rs w1
               (SetState (Name e) (if Remove e then Deleted else Changed) s1)))"
| "Watch_loop compile add (Errors err # rs) w s = Some (Returned err s)"

text \<open>
  \<open>newWatcher\<close> is the error of \<open>fsnotify.NewWatcher\<close>, \<open>root\<close> the visits of the walk
  of the working directory.
\<close>

definition Watch ::
  "compiler \<Rightarrow> error option \<Rightarrow> (string \<Rightarrow> error option) \<Rightarrow> visit list \<Rightarrow> ready list \<Rightarrow> 'w gw \<Rightarrow> 'w outcome option" where
  "Watch compile newWatcher add root rs s =
     (case newWatcher of
        Some err \<Rightarrow> Some (Returned err s)
      | None \<Rightarrow>
          (case watchRecursive add root [] s of
             (Some err, w, s1) \<Rightarrow> Some (Returned err s1)
           | (None, w, s1) \<Rightarrow> Watch_loop compile add rs w s1))"


section \<open>Package gw: the trigger variant\<close>

text \<open>
  The other version of the package has no map of states: \<open>Trigger\<close> walks the tree and
  calls the registered function of each matching file at once. Its names are kept where
  they differ from the names above and carry the suffix \<open>_t\<close> or the prefix \<open>t\<close>
  where they do not.

  A registered function can call \<open>Trigger\<close> itself, as the package documentation
  shows, so its invocation is again a tree of calls.
\<close>

datatype 'w build =
    Done "error option" 'w
  | CallTrigger string bool "visit list" "error option \<Rightarrow> 'w build"

type_synonym 'w buildFunc = "string \<Rightarrow> bool \<Rightarrow> 'w \<Rightarrow> 'w build"

record 'w tmatcher =
  tpattern :: regexp
  tf :: "'w buildFunc"

text \<open>
  The package state of this variant, with the lines printed to standard output and the
  registered functions called (by position, with their arguments).
\<close>

record 'w tgw =
  tmatchers :: "'w tmatcher list"
  tignores :: "regexp list"
  stdout :: "string list"
  called :: "(nat \<times> string \<times> bool) list"
  tworld :: 'w

definition Match_t :: "compiler \<Rightarrow> string \<Rightarrow> 'w buildFunc \<Rightarrow> 'w tgw \<Rightarrow> panic option \<times> 'w tgw" where
  "Match_t compile pat h s =
     (case MustCompile compile pat of
        Inl p \<Rightarrow> (Some p, s)
      | Inr r \<Rightarrow> (None, s\<lparr>tmatchers := tmatchers s @ [\<lparr>tpattern = r, tf = h\<rparr>]\<rparr>))"

definition Ignore_t :: "compiler \<Rightarrow> string \<Rightarrow> 'w tgw \<Rightarrow> panic option \<times> 'w tgw" where
  "Ignore_t compile pat s =
     (case MustCompile compile pat of
        Inl p \<Rightarrow> (Some p, s)
      | Inr r \<Rightarrow> (None, s\<lparr>tignores := tignores s @ [r]\<rparr>))"

text \<open>\<open>findMatcher\<close> returns the first matcher that matches, here with its position.\<close>

fun findMatcher_loop :: "(nat \<times> 'w tmatcher) list \<Rightarrow> string \<Rightarrow> (nat \<times> 'w tmatcher) option" where
  "findMatcher_loop [] path = None"
| "findMatcher_loop ((i, m) # ms) path =
     (if tpattern m path then Some (i, m) else findMatcher_loop ms path)"

definition findMatcher :: "'w tgw \<Rightarrow> string \<Rightarrow> (nat \<times> 'w tmatcher) option" where
  "findMatcher s path = findMatcher_loop (enumerate 0 (tmatchers s)) path"

fun shouldIgnore_loop :: "regexp list \<Rightarrow> string \<Rightarrow> bool" where
  "shouldIgnore_loop [] path = False"
| "shouldIgnore_loop (v # vs) path = (if v path then True else shouldIgnore_loop vs path)"

definition shouldIgnore :: "'w tgw \<Rightarrow> string \<Rightarrow> bool" where
  "shouldIgnore s path = shouldIgnore_loop (tignores s) path"

text \<open>
  A call of \<open>Trigger\<close> made by a registered function is carried out by \<open>trig\<close>, which
  gives \<open>None\<close> when the nesting of such calls is deeper than the bound of the run.
\<close>

type_synonym 'w trigger =
  "string \<Rightarrow> bool \<Rightarrow> visit list \<Rightarrow> 'w tgw \<Rightarrow> (error option \<times> 'w tgw) option"

primrec run_build :: "'w trigger \<Rightarrow> 'w build \<Rightarrow> 'w tgw \<Rightarrow> (error option \<times> 'w tgw) option" where
  "run_build trig (Done e w) s = Some (e, s\<lparr>tworld := w\<rparr>)"
| "run_build trig (CallTrigger pat deleted visits k) s =
     (case trig pat deleted visits s of
        None \<Rightarrow> None
      | Some (r, s1) \<Rightarrow> run_build trig (k r) s1)"

fun Trigger_walk ::
  "'w trigger \<Rightarrow> regexp \<Rightarrow> bool \<Rightarrow> visit list \<Rightarrow> 'w tgw \<Rightarrow> (error option \<times> 'w tgw) option" where
  "Trigger_walk trig r deleted [] s = Some (None, s)"
| "Trigger_walk trig r deleted (v # vs) s =
     (case verr v of
        Some e \<Rightarrow> Some (Some e, s)
      | None \<Rightarrow>
          if \<not> r (vpath v) \<or> shouldIgnore s (vpath v) then Trigger_walk trig r deleted vs s
          else
            (case findMatcher s (vpath v) of
               None \<Rightarrow> Trigger_walk trig r deleted vs s
             | Some (i, m) \<Rightarrow>
                 (case run_build trig (tf m (vpath v) deleted (tworld s))
                         (s\<lparr>stdout := stdout s @ [''triggering '' @ vpath v],
                            called := called s @ [(i, vpath v, deleted)]\<rparr>) of
                    None \<Rightarrow> None
                  | Some (Some err, s1) \<Rightarrow> Some (Some err, s1)
                  | Some (None, s1) \<Rightarrow> Trigger_walk trig r deleted vs s1)))"

text \<open>\<open>Trigger\<close>, with a bound on the depth of the calls of \<open>Trigger\<close> in progress.\<close>

primrec Trigger :: "compiler \<Rightarrow> nat \<Rightarrow> 'w trigger" where
  "Trigger compile 0 = (\<lambda>pat deleted visits s. None)"
| "Trigger compile (Suc n) =
     (\<lambda>pat deleted visits s.
        case compile pat of
          Inl e \<Rightarrow> Some (Some e, s)
        | Inr r \<Rightarrow> Trigger_walk (Trigger compile n) r deleted visits s)"

fun watchRecursive_t ::
  "(string \<Rightarrow> error option) \<Rightarrow> visit list \<Rightarrow> string list \<Rightarrow> 'w tgw \<Rightarrow> error option \<times> string list \<times> 'w tgw" where
  "watchRecursive_t add [] w s = (None, w, s)"
| "watchRecursive_t add (v # vs) w s =
     (case verr v of
        Some e \<Rightarrow> (Some e, w, s)
      | None \<Rightarrow>
          if \<not> visdir v \<or> shouldIgnore s (vpath v) then watchRecursive_t add vs w s
          else
            (case add (vpath v) of
               Some e \<Rightarrow> (Some e, w, s\<lparr>stdout := stdout s @ [''watching '' @ vpath v @ ''...'']\<rparr>)
             | None \<Rightarrow>
                 watchRecursive_t add vs (w @ [vpath v])
                   (s\<lparr>stdout := stdout s @ [''watching '' @ vpath v @ ''...'']\<rparr>)))"

text \<open>
  An event of this variant carries, besides the answers of \<open>os.Stat\<close> and of the walk
  below its name, the visits of the walk of the working directory that \<open>Trigger\<close> makes.
\<close>

record tevent =
  tName :: string
  tCreate :: bool
  tRemove :: bool
  tStat :: "error + bool"
  tWalk :: "visit list"
  tTree :: "visit list"

datatype tready = Events_t tevent | Errors_t error

datatype 'w toutcome = Returned_t error "'w tgw" | Waiting_t "'w tgw"

text \<open>
  The loop of the goroutine that \<open>Watch\<close> starts. \<open>Watch\<close> itself returns the first
  error sent on \<open>errCh\<close>, which is the first error read from \<open>w.Errors\<close>.
\<close>

fun Watch_t_loop ::
  "compiler \<Rightarrow> nat \<Rightarrow> (string \<Rightarrow> error option) \<Rightarrow> tready list \<Rightarrow> string list \<Rightarrow> 'w tgw \<Rightarrow> 'w toutcome option" where
  "Watch_t_loop compile n add [] w s = Some (Waiting_t s)"
| "Watch_t_loop compile n add (Events_t e # rs) w s =
     (if shouldIgnore s (tName e) then Watch_t_loop compile n add rs w s
      else
        (case (if tCreate e then
                 (case tStat e of
                    Inl err \<Rightarrow> (Some err, w, s)
                  | Inr isdir \<Rightarrow>
                      if isdir then watchRecursive_t add (tWalk e) w s else (None, w, s))
               else (None, w, s)) of
           (Some err, w1, s1) \<Rightarrow>
             Watch_t_loop compile n add rs w1 (s1\<lparr>stdout := stdout s1 @ [err]\<rparr>)
         | (None, w1, s1) \<Rightarrow>
             (case Trigger compile n (''^'' @ tName e @ ''$'') (tRemove e) (tTree e) s1 of
                None \<Rightarrow> None
              | Some (Some err, s2) \<Rightarrow>
                  Watch_t_loop compile n add rs w1 (s2\<lparr>stdout := stdout s2 @ [err]\<rparr>)
              | Some (None, s2) \<Rightarrow> Watch_t_loop compile n add rs w1 s2)))"
| "Watch_t_loop compile n add (Errors_t err # rs) w s = Some (Returned_t err s)"

definition Watch_t ::
  "compiler \<Rightarrow> nat \<Rightarrow> error option \<Rightarrow> (string \<Rightarrow> error option) \<Rightarrow> visit list \<Rightarrow> tready list \<Rightarrow> 'w tgw \<Rightarrow> 'w toutcome option" where
  "Watch_t compile n newWatcher add root rs s =
     (case newWatcher of
        Some err \<Rightarrow> Some (Returned_t err s)
      | None \<Rightarrow>
          (case watchRecursive_t add root [] s of
             (Some err, w, s1) \<Rightarrow> Some (Returned_t err s1)
           | (None, w, s1) \<Rightarrow> Watch_t_loop compile n add rs w s1))"


section \<open>Vocabulary of the properties\<close>

text \<open>The paths of the dirty set.\<close>

definition dirty :: "'w gw \<Rightarrow> string set" where
  "dirty s = fst ` set (states s)"

text \<open>
  \<open>SetState\<close> is the only writer of the map and stores a path only when a matcher
  matches it, and matchers are never removed. So in every state the package reaches,
  each dirty path has a matcher.
\<close>

definition tracked :: "'w gw \<Rightarrow> bool" where
  "tracked s = (\<forall>p \<in> dirty s. hasMatcher s p)"

text \<open>All calls of \<open>SetState\<close> and \<open>SetStates\<close> in a handler invocation pass a state that satisfies \<open>ok\<close>.\<close>

primrec calls_with :: "(FileState \<Rightarrow> bool) \<Rightarrow> 'w action \<Rightarrow> bool" where
  "calls_with ok (Return e w) = True"
| "calls_with ok (CallSetState path state k) = (ok state \<and> calls_with ok k)"
| "calls_with ok (CallSetStates pat state visits k) = (ok state \<and> (\<forall>r. calls_with ok (k r)))"

text \<open>No handler, invoked on a path it matches, passes a state other than \<open>Clean\<close>.\<close>

definition handlers_only_clean :: "'w matcher list \<Rightarrow> bool" where
  "handlers_only_clean ms =
     (\<forall>m \<in> set ms. \<forall>p st w. pattern m p \<longrightarrow> calls_with (\<lambda>x. x = Clean) (f m p st w))"

text \<open>No handler, invoked on a path it matches, passes the state \<open>Clean\<close>.\<close>

definition handlers_never_clean :: "'w matcher list \<Rightarrow> bool" where
  "handlers_never_clean ms =
     (\<forall>m \<in> set ms. \<forall>p st w. pattern m p \<longrightarrow> calls_with (\<lambda>x. x \<noteq> Clean) (f m p st w))"

text \<open>
  \<open>HandlersFor\<close> of the specification's pattern registry: the positions of the rules
  whose pattern matches the path, in registration order.
\<close>

definition HandlersFor :: "'w matcher list \<Rightarrow> string \<Rightarrow> nat list" where
  "HandlersFor ms path = filter (\<lambda>i. pattern (ms ! i) path) [0..<length ms]"

text \<open>The handler invocations among the callbacks.\<close>

fun is_Invoked :: "callback \<Rightarrow> bool" where
  "is_Invoked (Invoked i p st) = True"
| "is_Invoked (Logged p st) = False"

definition invocations :: "callback list \<Rightarrow> callback list" where
  "invocations t = filter is_Invoked t"

text \<open>
  The errors that the watcher and the file system hand to \<open>Watch\<close>: from
  \<open>fsnotify.NewWatcher\<close>, from a walk and the \<open>w.Add\<close> calls in it, from \<open>os.Stat\<close> and from
  the channel \<open>w.Errors\<close>.
\<close>

definition walk_errors :: "(string \<Rightarrow> error option) \<Rightarrow> visit list \<Rightarrow> error set" where
  "walk_errors add vs = {e. \<exists>v \<in> set vs. verr v = Some e \<or> add (vpath v) = Some e}"

fun ready_errors :: "(string \<Rightarrow> error option) \<Rightarrow> ready \<Rightarrow> error set" where
  "ready_errors add (TimeAfter chs) = {}"
| "ready_errors add (Events e) =
     (case Stat e of Inl err \<Rightarrow> {err} | Inr isdir \<Rightarrow> {}) \<union> walk_errors add (Walk e)"
| "ready_errors add (Errors err) = {err}"

definition watcher_errors ::
  "error option \<Rightarrow> (string \<Rightarrow> error option) \<Rightarrow> visit list \<Rightarrow> ready list \<Rightarrow> error set" where
  "watcher_errors newWatcher add root rs =
     set_option newWatcher \<union> walk_errors add root \<union> (\<Union>r \<in> set rs. ready_errors add r)"

section \<open>Examples\<close>

text \<open>
  A stand-in for \<open>regexp.Compile\<close> on the patterns of the examples; it rejects every
  other pattern, among them the unbalanced \<open>(\<close>.
\<close>

definition example_Compile :: compiler where
  "example_Compile pat =
     (if pat = ''.*'' then Inr (\<lambda>p. True)
      else if pat = ''^a$'' then Inr (\<lambda>p. p = ''a'')
      else if pat = ''^b$'' then Inr (\<lambda>p. p = ''b'')
      else Inl ''error parsing regexp'')"

definition succeeds :: "unit Handler" where
  "succeeds path state w = Return None w"

definition fails :: "unit Handler" where
  "fails path state w = Return (Some ''boom'') w"

definition marks_b :: "unit Handler" where
  "marks_b path state w = CallSetState ''b'' Changed (Return None w)"

definition marks_b_and_fails :: "unit Handler" where
  "marks_b_and_fails path state w = CallSetState ''b'' Changed (Return (Some ''boom'') w)"

definition empty_gw :: "unit gw" where
  "empty_gw = \<lparr>matchers = [], ignores = [], states = [], trace = [], world = ()\<rparr>"

definition empty_tgw :: "unit tgw" where
  "empty_tgw = \<lparr>tmatchers = [], tignores = [], stdout = [], called = [], tworld = ()\<rparr>"

definition plain_file :: "string \<Rightarrow> visit" where
  "plain_file path = \<lparr>vpath = path, visdir = False, verr = None\<rparr>"

definition ignoring_a :: "unit gw" where
  "ignoring_a = empty_gw\<lparr>matchers := [\<lparr>pattern = (\<lambda>p. True), f = succeeds\<rparr>],
                        ignores := [\<lambda>p. p = ''a'']\<rparr>"

definition serving_a :: "unit gw" where
  "serving_a = empty_gw\<lparr>matchers := [\<lparr>pattern = (\<lambda>p. p = ''a''), f = succeeds\<rparr>]\<rparr>"

definition two_dirty :: "unit gw" where
  "two_dirty = empty_gw\<lparr>matchers := [\<lparr>pattern = (\<lambda>p. True), f = succeeds\<rparr>],
                       states := [(''a'', Changed), (''b'', Deleted)]\<rparr>"

definition two_rules :: "unit tgw" where
  "two_rules = empty_tgw\<lparr>tmatchers :=
     [\<lparr>tpattern = (\<lambda>p. True), tf = (\<lambda>path deleted w. Done None w)\<rparr>,
      \<lparr>tpattern = (\<lambda>p. p = ''a''), tf = (\<lambda>path deleted w. Done None w)\<rparr>]\<rparr>"

definition first_fails :: "unit gw" where
  "first_fails = empty_gw\<lparr>matchers :=
     [\<lparr>pattern = (\<lambda>p. True), f = succeeds\<rparr>,
      \<lparr>pattern = (\<lambda>p. p = ''a''), f = fails\<rparr>,
      \<lparr>pattern = (\<lambda>p. True), f = succeeds\<rparr>],
     states := [(''a'', Changed), (''b'', Changed)]\<rparr>"

definition a_marks_b :: "unit gw" where
  "a_marks_b = empty_gw\<lparr>matchers :=
     [\<lparr>pattern = (\<lambda>p. p = ''a''), f = marks_b\<rparr>,
      \<lparr>pattern = (\<lambda>p. p = ''b''), f = succeeds\<rparr>],
     states := [(''a'', Changed)]\<rparr>"

definition a_marks_b_and_fails :: "unit gw" where
  "a_marks_b_and_fails = empty_gw\<lparr>matchers :=
     [\<lparr>pattern = (\<lambda>p. p = ''a''), f = marks_b_and_fails\<rparr>,
      \<lparr>pattern = (\<lambda>p. p = ''b''), f = succeeds\<rparr>],
     states := [(''a'', Changed)]\<rparr>"

definition a_fails :: "unit gw" where
  "a_fails = empty_gw\<lparr>matchers := [\<lparr>pattern = (\<lambda>p. p = ''a''), f = fails\<rparr>],
                     states := [(''a'', Changed)]\<rparr>"

definition a_fails_t :: "unit tgw" where
  "a_fails_t = empty_tgw\<lparr>tmatchers :=
     [\<lparr>tpattern = (\<lambda>p. p = ''a''), tf = (\<lambda>path deleted w. Done (Some ''boom'') w)\<rparr>]\<rparr>"

definition write_a :: fsevent where
  "write_a = \<lparr>Name = ''a'', Create = False, Remove = False, Stat = Inr False, Walk = []\<rparr>"

definition write_a_t :: tevent where
  "write_a_t = \<lparr>tName = ''a'', tCreate = False, tRemove = False, tStat = Inr False,
                tWalk = [], tTree = [plain_file ''a'']\<rparr>"

definition marks_b_and_resets :: "unit Handler" where
  "marks_b_and_resets path state w =
     CallSetState ''b'' Changed (CallSetState ''b'' Clean (Return None w))"

definition a_marks_b_and_resets :: "unit gw" where
  "a_marks_b_and_resets = empty_gw\<lparr>matchers :=
     [\<lparr>pattern = (\<lambda>p. p = ''a''), f = marks_b_and_resets\<rparr>,
      \<lparr>pattern = (\<lambda>p. p = ''b''), f = succeeds\<rparr>],
     states := [(''a'', Changed)]\<rparr>"

section \<open>Basic facts\<close>

lemma SetState_fields [simp]:
  "matchers (SetState p st s) = matchers s"
  "ignores (SetState p st s) = ignores s"
  "world (SetState p st s) = world s"
  by (simp_all add: SetState_def Let_def)

lemma hasMatcher_SetState [simp]: "hasMatcher (SetState p st s) q = hasMatcher s q"
  by (simp add: hasMatcher_def)

lemma hasIgnore_SetState [simp]: "hasIgnore (SetState p st s) q = hasIgnore s q"
  by (simp add: hasIgnore_def)

lemma map_of_SetState_other:
  "p \<noteq> q \<Longrightarrow> map_of (states (SetState q st s)) p = map_of (states s) p"
  by (simp add: SetState_def Let_def update_conv' delete_conv')

lemma SetStates_walk_ignored:
  "hasIgnore s p \<Longrightarrow> SetStates_walk r st vs s = (e, s') \<Longrightarrow>
     map_of (states s') p = map_of (states s) p"
proof (induction vs arbitrary: s)
  case Nil
  then show ?case by simp
next
  case (Cons v vs)
  show ?case
  proof (cases "verr v")
    case (Some err)
    with Cons.prems show ?thesis by simp
  next
    case None
    show ?thesis
    proof (cases "\<not> r (vpath v) \<or> hasIgnore s (vpath v)")
      case True
      with Cons.prems None have "SetStates_walk r st vs s = (e, s')" by simp
      with Cons.prems(1) show ?thesis by (rule Cons.IH)
    next
      case False
      let ?s1 = "SetState (vpath v) st s"
      from False Cons.prems(1) have ne: "p \<noteq> vpath v" by auto
      from Cons.prems None False have run: "SetStates_walk r st vs ?s1 = (e, s')" by simp
      from Cons.prems(1) have "hasIgnore ?s1 p" by simp
      then have "map_of (states s') p = map_of (states ?s1) p" using run by (rule Cons.IH)
      with ne show ?thesis by (simp add: map_of_SetState_other)
    qed
  qed
qed

section \<open>Ignored paths\<close>

text \<open>\<open>Watch\<close> and \<open>watchRecursive\<close> pass over ignored paths as well.\<close>

lemma Watch_loop_skips_ignored:
  "hasIgnore s (Name e) \<Longrightarrow> Watch_loop c add (Events e # rs) w s = Watch_loop c add rs w s"
  by simp

lemma watchRecursive_ignored:
  "hasIgnore s p \<Longrightarrow> watchRecursive add vs w s = (e, w', s') \<Longrightarrow>
     map_of (states s') p = map_of (states s) p"
proof (induction vs arbitrary: w s)
  case Nil
  then show ?case by simp
next
  case (Cons v vs)
  show ?case
  proof (cases "verr v")
    case (Some err)
    with Cons.prems show ?thesis by simp
  next
    case None
    show ?thesis
    proof (cases "\<not> visdir v \<or> hasIgnore s (vpath v)")
      case True
      with Cons.prems None have "watchRecursive add vs w s = (e, w', s')" by simp
      with Cons.prems(1) show ?thesis by (rule Cons.IH)
    next
      case False
      let ?s1 = "SetState (vpath v) Clean s"
      from False Cons.prems(1) have ne: "p \<noteq> vpath v" by auto
      have ig: "hasIgnore ?s1 p" using Cons.prems(1) by simp
      show ?thesis
      proof (cases "add (vpath v)")
        case (Some err)
        with Cons.prems None False have "s' = ?s1" by simp
        with ne show ?thesis by (simp add: map_of_SetState_other)
      next
        case a: None
        with Cons.prems None False
        have "watchRecursive add vs (w @ [vpath v]) ?s1 = (e, w', s')" by simp
        with ig have "map_of (states s') p = map_of (states ?s1) p" by (rule Cons.IH)
        with ne show ?thesis by (simp add: map_of_SetState_other)
      qed
    qed
  qed
qed

text \<open>
  C3, as the code has it. \<open>SetState\<close> does not look at the ignore patterns: the callers
  do. \<open>SetStates\<close> never changes the entry of a path that matches an ignore pattern,
  whatever matchers match the path.
\<close>

theorem SetStates_skips_ignored:
  assumes "hasIgnore s p" and "SetStates compile pat st visits s = (e, s')"
  shows "map_of (states s') p = map_of (states s) p"
proof (cases "compile pat")
  case (Inl err)
  with assms(2) show ?thesis by (simp add: SetStates_def)
next
  case (Inr r)
  with assms(2) have "SetStates_walk r st visits s = (e, s')" by (simp add: SetStates_def)
  with assms(1) show ?thesis by (rule SetStates_walk_ignored)
qed

theorem SetStates_skips_ignored_witness:
  "hasIgnore ignoring_a ''a'' \<and>
   SetStates example_Compile ''.*'' Changed [plain_file ''a'', plain_file ''b''] ignoring_a =
     (None, ignoring_a\<lparr>states := [(''b'', Changed)], trace := [Logged ''b'' Changed]\<rparr>) \<and>
   map_of (states (ignoring_a\<lparr>states := [(''b'', Changed)], trace := [Logged ''b'' Changed]\<rparr>)) ''a''
     = map_of (states ignoring_a) ''a''"
proof -
  have h: "hasIgnore ignoring_a ''a''"
    by (simp add: hasIgnore_def ignoring_a_def empty_gw_def)
  have r: "SetStates example_Compile ''.*'' Changed [plain_file ''a'', plain_file ''b''] ignoring_a =
     (None, ignoring_a\<lparr>states := [(''b'', Changed)], trace := [Logged ''b'' Changed]\<rparr>)"
    by (simp add: SetStates_def example_Compile_def plain_file_def hasIgnore_def hasMatcher_def
        SetState_def ignoring_a_def empty_gw_def)
  from h r SetStates_skips_ignored[OF h r] show ?thesis by simp
qed

text \<open>
  C3, as the claim states it, fails: a direct call of \<open>SetState\<close> on a path that matches
  an ignore pattern and a matcher inserts the path.
\<close>

theorem SetState_ignored_counterexample:
  "hasIgnore ignoring_a ''a'' \<and> ''a'' \<notin> dirty ignoring_a \<and>
   ''a'' \<in> dirty (SetState ''a'' Changed ignoring_a)"
  by (simp add: hasIgnore_def hasMatcher_def SetState_def dirty_def ignoring_a_def empty_gw_def)

section \<open>Draining, the registry gate, logging and registration\<close>

text \<open>
  C6. When \<open>Dispatch\<close> returns nil, the dirty set is empty, whatever the state it
  started from, the choices of \<open>nextDirty\<close> and the handlers.
\<close>

theorem Dispatch_nil_drains:
  "Dispatch compile chs s = Some (None, s') \<Longrightarrow> dirty s' = {}"
proof (induction chs arbitrary: s)
  case Nil
  then show ?case by (auto simp: nextDirty_def dirty_def split: if_splits)
next
  case (Cons ch chs)
  show ?case
  proof (cases "states s = []")
    case True
    with Cons.prems show ?thesis by (simp add: nextDirty_def dirty_def)
  next
    case False
    obtain p st where pick: "nextDirty ch (states s) = (p, st, True)"
      using False by (simp add: nextDirty_def)
    obtain r s1 where it: "Dispatch_matchers compile (enumerate 0 (matchers s)) p st (SetState p Clean s) = (r, s1)"
      by (cases "Dispatch_matchers compile (enumerate 0 (matchers s)) p st (SetState p Clean s)")
    from Cons.prems pick it have "r = None" and "Dispatch compile chs s1 = Some (None, s')"
      by (auto split: option.splits)
    then show ?thesis using Cons.IH by blast
  qed
qed

theorem Dispatch_nil_drains_witness:
  "Dispatch example_Compile [0]
     (SetState ''a'' Changed serving_a) =
     Some (None, serving_a\<lparr>trace := [Logged ''a'' Changed, Logged ''a'' Clean, Invoked 0 ''a'' Changed]\<rparr>) \<and>
   dirty (serving_a\<lparr>trace := [Logged ''a'' Changed, Logged ''a'' Clean, Invoked 0 ''a'' Changed]\<rparr>) = {}"
proof -
  have r: "Dispatch example_Compile [0] (SetState ''a'' Changed serving_a) =
     Some (None, serving_a\<lparr>trace := [Logged ''a'' Changed, Logged ''a'' Clean, Invoked 0 ''a'' Changed]\<rparr>)"
    by (simp add: nextDirty_def SetState_def hasMatcher_def serving_a_def empty_gw_def
        succeeds_def enumerate_eq_zip)
  from r Dispatch_nil_drains[OF r] show ?thesis by simp
qed

text \<open>
  C7. \<open>SetState\<close> on a path that no matcher matches changes nothing: not the dirty set,
  and no other part of the package state.
\<close>

theorem SetState_unmatched_noop:
  "\<not> hasMatcher s p \<Longrightarrow> SetState p Changed s = s"
  by (simp add: SetState_def)

theorem SetState_unmatched_noop_witness:
  "\<not> hasMatcher serving_a ''b'' \<and> SetState ''b'' Changed serving_a = serving_a"
proof -
  have h: "\<not> hasMatcher serving_a ''b''"
    by (simp add: hasMatcher_def serving_a_def empty_gw_def)
  from h SetState_unmatched_noop[OF h] show ?thesis by simp
qed

text \<open>
  C8, as the code has it. \<open>SetState\<close> calls \<open>Log\<close> with its arguments when a matcher
  matches the path, for every state, also when the state is \<open>Clean\<close> and the path is not
  dirty. It returns before the call when no matcher matches.
\<close>

theorem SetState_logs_matched:
  "hasMatcher s p \<Longrightarrow> trace (SetState p st s) = trace s @ [Logged p st]"
  by (simp add: SetState_def Let_def)

theorem SetState_logs_matched_witness:
  "hasMatcher serving_a ''a'' \<and> ''a'' \<notin> dirty serving_a \<and>
   trace (SetState ''a'' Clean serving_a) = trace serving_a @ [Logged ''a'' Clean]"
proof -
  have h: "hasMatcher serving_a ''a''"
    by (simp add: hasMatcher_def serving_a_def empty_gw_def)
  have d: "''a'' \<notin> dirty serving_a"
    by (simp add: dirty_def serving_a_def empty_gw_def)
  from h d SetState_logs_matched[OF h, of Clean] show ?thesis by simp
qed

text \<open>
  C8, as the claim states it, fails: on a path that no matcher matches, \<open>SetState\<close> does
  not call \<open>Log\<close>.
\<close>

theorem SetState_no_log_counterexample:
  "trace (SetState ''b'' Changed serving_a) = trace serving_a"
  by (simp add: SetState_def hasMatcher_def serving_a_def empty_gw_def)

text \<open>
  C9, as the code has it. \<open>Match\<close> compiles with \<open>regexp.MustCompile\<close>, so a pattern
  that does not compile makes the call panic with the compile error; no error is
  returned, as \<open>Match\<close> has no result. The panic comes before the matcher is appended,
  so the package state is the one before the call.
\<close>

theorem Match_bad_pattern_panics:
  "compile pat = Inl e \<Longrightarrow> Match compile pat h s = (Some (Panic e), s)"
  by (simp add: Match_def MustCompile_def)

theorem Match_bad_pattern_panics_witness:
  "example_Compile ''('' = Inl ''error parsing regexp'' \<and>
   Match example_Compile ''('' succeeds serving_a = (Some (Panic ''error parsing regexp''), serving_a)"
proof -
  have h: "example_Compile ''('' = Inl ''error parsing regexp''"
    by (simp add: example_Compile_def)
  from h Match_bad_pattern_panics[of example_Compile "''(''" "''error parsing regexp''" succeeds serving_a]
  show ?thesis by simp
qed

text \<open>
  C9, as the claim states it, fails in both variants: the call with the pattern \<open>(\<close>
  does not return, it panics.
\<close>

theorem Match_returns_error_counterexample:
  "fst (Match example_Compile ''('' succeeds empty_gw) = Some (Panic ''error parsing regexp'') \<and>
   fst (Match_t example_Compile ''('' (\<lambda>path deleted w. Done None w) empty_tgw)
     = Some (Panic ''error parsing regexp'')"
  by (simp add: Match_def Match_t_def MustCompile_def example_Compile_def)

section \<open>Relations kept by every step of a run\<close>

text \<open>
  A reflexive and transitive relation between package states that each call of
  \<open>SetState\<close> respects is respected by the walks, by a handler invocation and by the
  inner loop of \<open>Dispatch\<close>.
\<close>

lemma SetStates_walk_rel:
  assumes refl: "\<And>s. R s s"
    and trans: "\<And>a b c. R a b \<Longrightarrow> R b c \<Longrightarrow> R a c"
    and step: "\<And>p s. R s (SetState p st s)"
  shows "SetStates_walk r st vs s = (e, s') \<Longrightarrow> R s s'"
proof (induction vs arbitrary: s)
  case Nil
  then show ?case using refl by simp
next
  case (Cons v vs)
  show ?case
  proof (cases "verr v")
    case (Some err)
    with Cons.prems show ?thesis using refl by simp
  next
    case None
    show ?thesis
    proof (cases "\<not> r (vpath v) \<or> hasIgnore s (vpath v)")
      case True
      with Cons.prems None have "SetStates_walk r st vs s = (e, s')" by simp
      then show ?thesis by (rule Cons.IH)
    next
      case False
      with Cons.prems None have "SetStates_walk r st vs (SetState (vpath v) st s) = (e, s')" by simp
      then have "R (SetState (vpath v) st s) s'" by (rule Cons.IH)
      with step show ?thesis by (rule trans)
    qed
  qed
qed

lemma SetStates_rel:
  assumes refl: "\<And>s. R s s"
    and trans: "\<And>a b c. R a b \<Longrightarrow> R b c \<Longrightarrow> R a c"
    and step: "\<And>p s. R s (SetState p st s)"
    and run: "SetStates c pat st vs s = (e, s')"
  shows "R s s'"
proof (cases "c pat")
  case (Inl err)
  with run show ?thesis using refl by (simp add: SetStates_def)
next
  case (Inr r)
  with run have "SetStates_walk r st vs s = (e, s')" by (simp add: SetStates_def)
  with refl trans step show ?thesis by (rule SetStates_walk_rel)
qed

lemma run_action_rel:
  assumes refl: "\<And>s. R s s"
    and trans: "\<And>a b c. R a b \<Longrightarrow> R b c \<Longrightarrow> R a c"
    and step: "\<And>p st s. ok st \<Longrightarrow> R s (SetState p st s)"
    and wstep: "\<And>w s. R s (s\<lparr>world := w\<rparr>)"
  shows "calls_with ok a \<Longrightarrow> run_action c a s = (e, s') \<Longrightarrow> R s s'"
proof (induction a arbitrary: s)
  case (Return x w)
  then show ?case using wstep by auto
next
  case (CallSetState p st k)
  from CallSetState.prems have ok: "ok st" and k: "calls_with ok k"
    and run: "run_action c k (SetState p st s) = (e, s')" by simp_all
  from CallSetState.IH[OF k run] step[OF ok] show ?case by (blast intro: trans)
next
  case (CallSetStates pat st vs k)
  obtain r s1 where ss: "SetStates c pat st vs s = (r, s1)"
    by (cases "SetStates c pat st vs s")
  from CallSetStates.prems have ok: "ok st" and k: "calls_with ok (k r)" by simp_all
  from CallSetStates.prems ss have run: "run_action c (k r) s1 = (e, s')" by simp
  have "R s s1" using refl trans step[OF ok] ss by (rule SetStates_rel)
  moreover have "R s1 s'" using k run by (rule CallSetStates.IH[OF rangeI])
  ultimately show ?case by (rule trans)
qed

lemma Dispatch_matchers_rel:
  assumes refl: "\<And>s. R s s"
    and trans: "\<And>a b c. R a b \<Longrightarrow> R b c \<Longrightarrow> R a c"
    and step: "\<And>p st s. ok st \<Longrightarrow> R s (SetState p st s)"
    and wstep: "\<And>w s. R s (s\<lparr>world := w\<rparr>)"
    and tstep: "\<And>i s. R s (s\<lparr>trace := trace s @ [Invoked i p st]\<rparr>)"
  shows "\<forall>(i, m) \<in> set ims. pattern m p \<longrightarrow> (\<forall>w. calls_with ok (f m p st w)) \<Longrightarrow>
    Dispatch_matchers c ims p st s = (e, s') \<Longrightarrow> R s s'"
proof (induction ims arbitrary: s)
  case Nil
  then show ?case using refl by simp
next
  case (Cons im ims)
  obtain i m where im: "im = (i, m)" by (cases im)
  from Cons.prems(1) have rest: "\<forall>(i, m) \<in> set ims. pattern m p \<longrightarrow> (\<forall>w. calls_with ok (f m p st w))"
    by simp
  show ?case
  proof (cases "pattern m p")
    case False
    with Cons.prems im have "Dispatch_matchers c ims p st s = (e, s')" by simp
    with rest show ?thesis by (rule Cons.IH)
  next
    case True
    let ?s0 = "s\<lparr>trace := trace s @ [Invoked i p st]\<rparr>"
    obtain r s1 where ra: "run_action c (f m p st (world s)) ?s0 = (r, s1)"
      by (cases "run_action c (f m p st (world s)) ?s0")
    from Cons.prems(1) im True have "calls_with ok (f m p st (world s))" by simp
    with refl trans step wstep have "R ?s0 s1" using ra by (rule run_action_rel)
    with tstep have r1: "R s s1" by (rule trans)
    show ?thesis
    proof (cases r)
      case None
      with Cons.prems im True ra have "Dispatch_matchers c ims p st s1 = (e, s')" by simp
      with rest have "R s1 s'" by (rule Cons.IH)
      with r1 show ?thesis by (rule trans)
    next
      case (Some err)
      with Cons.prems im True ra have "s' = s1" by simp
      with r1 show ?thesis by simp
    qed
  qed
qed

section \<open>Every dirty path has a matcher\<close>

lemma hasMatcher_loop_append:
  "hasMatcher_loop (ms @ ms') p = (hasMatcher_loop ms p \<or> hasMatcher_loop ms' p)"
  by (induction ms) auto

lemma tracked_empty: "states s = [] \<Longrightarrow> tracked s"
  by (simp add: tracked_def dirty_def)

lemma dom_delete_eq: "fst ` set (AList.delete k al) = fst ` set al - {k}"
proof -
  have "set (map fst (AList.delete k al)) = set (removeAll k (map fst al))"
    by (simp only: delete_keys)
  then show ?thesis by simp
qed

lemma dirty_SetState:
  "dirty (SetState p st s) =
     (if hasMatcher s p then (if st = Clean then dirty s - {p} else insert p (dirty s))
      else dirty s)"
  by (simp add: dirty_def SetState_def Let_def dom_update dom_delete_eq)

lemma tracked_SetState: "tracked s \<Longrightarrow> tracked (SetState p st s)"
  by (simp add: tracked_def dirty_SetState)

lemma tracked_Match: "tracked s \<Longrightarrow> tracked (snd (Match compile pat h s))"
  by (auto simp: tracked_def dirty_def Match_def hasMatcher_def hasMatcher_loop_append
      split: sum.splits)

lemma tracked_Ignore: "tracked s \<Longrightarrow> tracked (snd (Ignore compile pat s))"
  by (auto simp: tracked_def dirty_def Ignore_def hasMatcher_def split: sum.splits)

section \<open>Termination\<close>

lemma nextDirty_picks:
  "m \<noteq> [] \<Longrightarrow> \<exists>p st. nextDirty ch m = (p, st, True) \<and> (p, st) \<in> set m"
  by (simp add: nextDirty_def)

lemma nextDirty_empty: "nextDirty ch [] = ([], Clean, False)"
  by (simp add: nextDirty_def)

lemma SetState_Clean_shrinks:
  "matchers (SetState p Clean s) = matchers s \<and> dirty (SetState p Clean s) \<subseteq> dirty s
     \<and> length (states (SetState p Clean s)) \<le> length (states s)"
  by (auto simp: SetState_def Let_def dirty_def AList.delete_eq)

lemma SetState_Clean_removes:
  assumes "hasMatcher s p" and "p \<in> dirty s"
  shows "length (states (SetState p Clean s)) < length (states s)"
proof -
  from assms(2) obtain st where "(p, st) \<in> set (states s)" by (auto simp: dirty_def)
  then have "length (filter (\<lambda>(k, _). p \<noteq> k) (states s)) < length (states s)"
    by (intro length_filter_less[of "(p, st)"]) auto
  with assms(1) show ?thesis by (simp add: SetState_def Let_def AList.delete_eq)
qed

lemma Dispatch_matchers_only_clean:
  assumes "handlers_only_clean (matchers s0)" and "ims = enumerate 0 (matchers s0)"
    and "Dispatch_matchers c ims p st s = (e, s')"
  shows "matchers s' = matchers s \<and> dirty s' \<subseteq> dirty s \<and> length (states s') \<le> length (states s)"
proof -
  let ?R = "\<lambda>a b. matchers b = matchers a \<and> dirty b \<subseteq> dirty a \<and> length (states b) \<le> length (states a)"
  have hs: "\<forall>(i, m) \<in> set ims. pattern m p \<longrightarrow> (\<forall>w. calls_with (\<lambda>x. x = Clean) (f m p st w))"
    using assms(1,2) by (auto simp: handlers_only_clean_def enumerate_eq_zip dest: set_zip_rightD)
  show ?thesis
  proof (rule Dispatch_matchers_rel[where R = ?R and ok = "\<lambda>x. x = Clean", OF _ _ _ _ _ hs assms(3)])
    show "\<And>p st s. st = Clean \<Longrightarrow> ?R s (SetState p st s)"
      using SetState_Clean_shrinks by blast
  next
    show "\<And>w s. ?R s (s\<lparr>world := w\<rparr>)" by (simp add: dirty_def)
  next
    show "\<And>i s. ?R s (s\<lparr>trace := trace s @ [Invoked i p st]\<rparr>)" by (simp add: dirty_def)
  qed auto
qed

text \<open>
  C10. From a state in which every dirty path has a matcher, with handlers that pass
  only \<open>Clean\<close> to \<open>SetState\<close> and \<open>SetStates\<close>, \<open>Dispatch\<close> returns after at most as many
  iterations as there are dirty paths: each iteration removes the path it took.
\<close>

theorem Dispatch_terminates:
  assumes "tracked s" and "handlers_only_clean (matchers s)"
    and "length (states s) \<le> length chs"
  shows "\<exists>r s'. Dispatch compile chs s = Some (r, s')"
  using assms
proof (induction chs arbitrary: s)
  case Nil
  then show ?case by (simp add: nextDirty_empty)
next
  case (Cons ch chs)
  show ?case
  proof (cases "states s = []")
    case True
    then show ?thesis by (simp add: nextDirty_empty)
  next
    case False
    from nextDirty_picks[OF False] obtain p st
      where pick: "nextDirty ch (states s) = (p, st, True)" and mem: "(p, st) \<in> set (states s)"
      by blast
    from mem have d: "p \<in> dirty s" by (force simp: dirty_def)
    with Cons.prems(1) have hm: "hasMatcher s p" by (simp add: tracked_def)
    let ?s0 = "SetState p Clean s"
    obtain r s1 where it: "Dispatch_matchers compile (enumerate 0 (matchers s)) p st ?s0 = (r, s1)"
      by (cases "Dispatch_matchers compile (enumerate 0 (matchers s)) p st ?s0")
    from Dispatch_matchers_only_clean[OF Cons.prems(2) refl it]
    have k: "matchers s1 = matchers ?s0" "dirty s1 \<subseteq> dirty ?s0"
      "length (states s1) \<le> length (states ?s0)" by simp_all
    show ?thesis
    proof (cases r)
      case (Some err)
      with pick it show ?thesis by simp
    next
      case None
      from k(1) have ms: "matchers s1 = matchers s" by simp
      from k(2) SetState_Clean_shrinks[of p s] have "dirty s1 \<subseteq> dirty s" by blast
      with Cons.prems(1) ms have t1: "tracked s1" by (auto simp: tracked_def hasMatcher_def)
      from ms Cons.prems(2) have h1: "handlers_only_clean (matchers s1)" by simp
      from SetState_Clean_removes[OF hm d] k(3) Cons.prems(3)
      have l1: "length (states s1) \<le> length chs" by simp
      from Cons.IH[OF t1 h1 l1] obtain r' s' where "Dispatch compile chs s1 = Some (r', s')" by blast
      with pick it None show ?thesis by simp
    qed
  qed
qed

theorem Dispatch_terminates_witness:
  "tracked two_dirty \<and> handlers_only_clean (matchers two_dirty)
   \<and> length (states two_dirty) \<le> length [1, 0 :: nat]
   \<and> (\<exists>r s'. Dispatch example_Compile [1, 0] two_dirty = Some (r, s'))"
proof -
  have t: "tracked two_dirty"
    by (simp add: tracked_def dirty_def hasMatcher_def two_dirty_def empty_gw_def)
  have h: "handlers_only_clean (matchers two_dirty)"
    by (simp add: handlers_only_clean_def two_dirty_def empty_gw_def succeeds_def)
  have l: "length (states two_dirty) \<le> length [1, 0 :: nat]"
    by (simp add: two_dirty_def empty_gw_def)
  from t h l Dispatch_terminates[OF t h l, of example_Compile] show ?thesis by simp
qed

section \<open>Handler invocations of one pass over the matchers\<close>

lemma calls_with_any: "calls_with (\<lambda>x. True) a"
  by (induction a) simp_all

lemma invocations_Nil [simp]: "invocations [] = []"
  by (simp add: invocations_def)

lemma invocations_append [simp]: "invocations (t @ u) = invocations t @ invocations u"
  by (simp add: invocations_def)

lemma run_action_no_invocation:
  assumes "run_action c a s = (e, s')"
  shows "\<exists>t. trace s' = trace s @ t \<and> invocations t = []"
proof -
  let ?R = "\<lambda>a b :: 'a gw. \<exists>t. trace b = trace a @ t \<and> invocations t = []"
  show ?thesis
  proof (rule run_action_rel[where R = ?R and ok = "\<lambda>x. True", OF _ _ _ _ calls_with_any assms])
    show "\<And>s. ?R s s" by simp
  next
    fix a b c :: "'a gw" assume "?R a b" "?R b c"
    then obtain t u where "trace b = trace a @ t" "invocations t = []"
      "trace c = trace b @ u" "invocations u = []" by blast
    then have "trace c = trace a @ (t @ u) \<and> invocations (t @ u) = []" by simp
    then show "?R a c" by blast
  next
    show "\<And>p st s. True \<Longrightarrow> ?R s (SetState p st s)"
      by (simp add: SetState_def Let_def invocations_def)
  next
    show "\<And>w s. ?R s (s\<lparr>world := w\<rparr>)" by simp
  qed
qed

lemma Dispatch_matchers_invocations:
  "Dispatch_matchers c ims p st s = (r, s') \<Longrightarrow>
     \<exists>t. trace s' = trace s @ t
       \<and> prefix (invocations t) (map (\<lambda>(i, m). Invoked i p st) (filter (\<lambda>(i, m). pattern m p) ims))
       \<and> (r = None \<longrightarrow>
            invocations t = map (\<lambda>(i, m). Invoked i p st) (filter (\<lambda>(i, m). pattern m p) ims))"
proof (induction ims arbitrary: s)
  case Nil
  then show ?case by (simp add: invocations_def)
next
  case (Cons im ims)
  obtain i m where im: "im = (i, m)" by (cases im)
  let ?B = "map (\<lambda>(i, m). Invoked i p st) (filter (\<lambda>(i, m). pattern m p) ims)"
  show ?case
  proof (cases "pattern m p")
    case False
    with Cons.prems im have "Dispatch_matchers c ims p st s = (r, s')" by simp
    from Cons.IH[OF this] False im show ?thesis by simp
  next
    case True
    let ?s0 = "s\<lparr>trace := trace s @ [Invoked i p st]\<rparr>"
    obtain e s1 where ra: "run_action c (f m p st (world s)) ?s0 = (e, s1)"
      by (cases "run_action c (f m p st (world s)) ?s0")
    from run_action_no_invocation[OF ra] obtain t1
      where t1: "trace s1 = trace s @ [Invoked i p st] @ t1" "invocations t1 = []" by auto
    have inv1: "invocations ([Invoked i p st] @ t1) = [Invoked i p st]"
      using t1(2) by (simp add: invocations_def)
    show ?thesis
    proof (cases e)
      case (Some err)
      with Cons.prems im True ra have "s' = s1" "r = Some err" by simp_all
      with t1 inv1 im True show ?thesis
        by (intro exI[of _ "[Invoked i p st] @ t1"]) simp
    next
      case None
      with Cons.prems im True ra have "Dispatch_matchers c ims p st s1 = (r, s')" by simp
      from Cons.IH[OF this] obtain t2 where t2: "trace s' = trace s1 @ t2"
        "prefix (invocations t2) ?B" "r = None \<longrightarrow> invocations t2 = ?B" by blast
      have "trace s' = trace s @ (([Invoked i p st] @ t1) @ t2)" using t1(1) t2(1) by simp
      moreover have "invocations (([Invoked i p st] @ t1) @ t2) = Invoked i p st # invocations t2"
        using inv1 by (simp only: invocations_append) simp
      ultimately show ?thesis using t2(2,3) im True
        by (intro exI[of _ "([Invoked i p st] @ t1) @ t2"]) simp
    qed
  qed
qed

lemma enumerate_nth: "enumerate 0 ms = map (\<lambda>i. (i, ms ! i)) [0..<length ms]"
proof -
  have "enumerate 0 (map (\<lambda>i. ms ! i) [0..<length ms]) = map (\<lambda>i. (i, ms ! i)) [0..<length ms]"
    by (rule enumerate_map_upt)
  then show ?thesis by (simp only: map_nth)
qed

lemma matching_enumerate:
  "map (\<lambda>(i, m). Invoked i p st) (filter (\<lambda>(i, m). pattern m p) (enumerate 0 ms))
     = map (\<lambda>i. Invoked i p st) (HandlersFor ms p)"
  by (simp add: enumerate_nth HandlersFor_def filter_map comp_def)

text \<open>
  C1, as the code has it. For a path that \<open>Dispatch\<close> processes, the handlers whose
  pattern matches are invoked in registration order, each once and each after the one
  before it has returned nil: all of them when the pass ends without an error, else those
  up to the one that returned the error.
\<close>

theorem Dispatch_invokes_matching_in_order:
  assumes "Dispatch_matchers compile (enumerate 0 ms) path state s = (r, s')"
  shows "\<exists>t. trace s' = trace s @ t
    \<and> prefix (invocations t) (map (\<lambda>i. Invoked i path state) (HandlersFor ms path))
    \<and> (r = None \<longrightarrow> invocations t = map (\<lambda>i. Invoked i path state) (HandlersFor ms path))"
  using Dispatch_matchers_invocations[OF assms] by (simp only: matching_enumerate)

theorem Dispatch_invokes_matching_in_order_witness:
  "Dispatch_matchers example_Compile (enumerate 0 (matchers first_fails)) ''b'' Changed first_fails
     = (None, first_fails\<lparr>trace := [Invoked 0 ''b'' Changed, Invoked 2 ''b'' Changed]\<rparr>)
   \<and> (\<exists>t. trace (first_fails\<lparr>trace := [Invoked 0 ''b'' Changed, Invoked 2 ''b'' Changed]\<rparr>)
            = trace first_fails @ t
        \<and> invocations t = map (\<lambda>i. Invoked i ''b'' Changed) (HandlersFor (matchers first_fails) ''b''))"
proof -
  have r: "Dispatch_matchers example_Compile (enumerate 0 (matchers first_fails)) ''b'' Changed first_fails
     = (None, first_fails\<lparr>trace := [Invoked 0 ''b'' Changed, Invoked 2 ''b'' Changed]\<rparr>)"
    by (simp add: first_fails_def empty_gw_def succeeds_def fails_def enumerate_eq_zip upt_rec)
  from Dispatch_invokes_matching_in_order[OF r] r show ?thesis by (simp only: simp_thms) blast
qed

lemma findMatcher_loop_first:
  "findMatcher_loop (enumerate n ms) p = Some (i, m) \<Longrightarrow>
     n \<le> i \<and> i < n + length ms \<and> m = ms ! (i - n) \<and> tpattern m p \<and>
     (\<forall>j. n \<le> j \<and> j < i \<longrightarrow> \<not> tpattern (ms ! (j - n)) p)"
proof (induction ms arbitrary: n)
  case Nil
  then show ?case by simp
next
  case (Cons x ms)
  show ?case
  proof (cases "tpattern x p")
    case True
    with Cons.prems show ?thesis by auto
  next
    case False
    with Cons.prems have "findMatcher_loop (enumerate (Suc n) ms) p = Some (i, m)" by simp
    from Cons.IH[OF this] have ih: "Suc n \<le> i" "i < Suc n + length ms" "m = ms ! (i - Suc n)"
      "tpattern m p" "\<forall>j. Suc n \<le> j \<and> j < i \<longrightarrow> \<not> tpattern (ms ! (j - Suc n)) p" by blast+
    have "\<not> tpattern ((x # ms) ! (j - n)) p" if "n \<le> j" "j < i" for j
    proof (cases "j = n")
      case True
      with False show ?thesis by simp
    next
      case ne: False
      with that have "Suc n \<le> j" by simp
      with ih(5) that have "\<not> tpattern (ms ! (j - Suc n)) p" by simp
      moreover from \<open>Suc n \<le> j\<close> have "j - n = Suc (j - Suc n)" by simp
      ultimately show ?thesis by simp
    qed
    moreover from ih(1) have "i - n = Suc (i - Suc n)" by simp
    ultimately show ?thesis using ih by simp
  qed
qed

text \<open>
  In the trigger variant, the matcher that \<open>findMatcher\<close> returns is the first one, in
  registration order, whose pattern matches the path.
\<close>

lemma findMatcher_first:
  assumes "findMatcher s p = Some (i, m)"
  shows "i < length (tmatchers s) \<and> m = tmatchers s ! i \<and> tpattern m p \<and>
         (\<forall>j < i. \<not> tpattern (tmatchers s ! j) p)"
proof -
  from assms have "findMatcher_loop (enumerate 0 (tmatchers s)) p = Some (i, m)"
    by (simp add: findMatcher_def)
  from findMatcher_loop_first[OF this] show ?thesis by auto
qed

text \<open>
  C1, as the claim states it, fails in the trigger variant: \<open>Trigger\<close> asks \<open>findMatcher\<close>
  for the first matcher that matches and calls that one only. Both matchers of the
  example match the path \<open>a\<close>; the second is not called.
\<close>

theorem Trigger_first_match_only_counterexample:
  "tpattern (tmatchers two_rules ! 0) ''a'' \<and> tpattern (tmatchers two_rules ! 1) ''a'' \<and>
   Trigger example_Compile 1 ''.*'' False [plain_file ''a''] two_rules
     = Some (None, two_rules\<lparr>stdout := [''triggering a''], called := [(0, ''a'', False)]\<rparr>)"
  by (simp add: two_rules_def empty_tgw_def example_Compile_def plain_file_def shouldIgnore_def
      findMatcher_def enumerate_eq_zip upt_rec)

section \<open>Failing handlers\<close>

lemma Dispatch_matchers_append:
  "Dispatch_matchers c (ims1 @ ims2) p st s =
     (case Dispatch_matchers c ims1 p st s of
        (Some err, s1) \<Rightarrow> (Some err, s1)
      | (None, s1) \<Rightarrow> Dispatch_matchers c ims2 p st s1)"
proof (induction ims1 arbitrary: s)
  case Nil
  show ?case by simp
next
  case (Cons im ims1)
  obtain i m where im: "im = (i, m)" by (cases im)
  show ?case
  proof (cases "pattern m p")
    case False
    with im Cons.IH show ?thesis by simp
  next
    case True
    obtain e s1 where ra:
      "run_action c (f m p st (world s)) (s\<lparr>trace := trace s @ [Invoked i p st]\<rparr>) = (e, s1)"
      by (cases "run_action c (f m p st (world s)) (s\<lparr>trace := trace s @ [Invoked i p st]\<rparr>)")
    show ?thesis
    proof (cases e)
      case None
      with im True ra Cons.IH show ?thesis by simp
    next
      case (Some err)
      with im True ra show ?thesis by simp
    qed
  qed
qed

lemma Dispatch_matchers_same_matchers:
  assumes "Dispatch_matchers c ims p st s = (e, s')"
  shows "matchers s' = matchers s"
proof (rule Dispatch_matchers_rel[where R = "\<lambda>a b. matchers b = matchers a" and ok = "\<lambda>x. True",
      OF _ _ _ _ _ _ assms])
  show "\<forall>(i, m) \<in> set ims. pattern m p \<longrightarrow> (\<forall>w. calls_with (\<lambda>x. True) (f m p st w))"
    by (simp add: calls_with_any split_def)
qed simp_all

lemma Dispatch_matchers_error_source:
  "Dispatch_matchers c ims p st s = (Some err, s') \<Longrightarrow>
     \<exists>i m s0. (i, m) \<in> set ims \<and> pattern m p \<and>
       run_action c (f m p st (world s0)) (s0\<lparr>trace := trace s0 @ [Invoked i p st]\<rparr>) = (Some err, s')"
proof (induction ims arbitrary: s)
  case Nil
  then show ?case by simp
next
  case (Cons im ims)
  obtain i m where im: "im = (i, m)" by (cases im)
  show ?case
  proof (cases "pattern m p")
    case False
    with Cons.prems im have "Dispatch_matchers c ims p st s = (Some err, s')" by simp
    from Cons.IH[OF this] show ?thesis by auto
  next
    case True
    obtain e s1 where ra:
      "run_action c (f m p st (world s)) (s\<lparr>trace := trace s @ [Invoked i p st]\<rparr>) = (e, s1)"
      by (cases "run_action c (f m p st (world s)) (s\<lparr>trace := trace s @ [Invoked i p st]\<rparr>)")
    show ?thesis
    proof (cases e)
      case None
      with Cons.prems im True ra have "Dispatch_matchers c ims p st s1 = (Some err, s')" by simp
      from Cons.IH[OF this] show ?thesis by auto
    next
      case (Some err')
      with Cons.prems im True ra have "err' = err" "s1 = s'" by simp_all
      with ra Some True im show ?thesis by auto
    qed
  qed
qed

text \<open>
  Conversely, an error that \<open>Dispatch\<close> returns is the error that a handler of a matching
  matcher returned, and the package state is the one in which that handler returned.
\<close>

lemma Dispatch_error_source:
  "Dispatch c chs s = Some (Some err, s') \<Longrightarrow>
     \<exists>i p st s0. i < length (matchers s) \<and> pattern (matchers s ! i) p \<and>
       run_action c (f (matchers s ! i) p st (world s0))
         (s0\<lparr>trace := trace s0 @ [Invoked i p st]\<rparr>) = (Some err, s')"
proof (induction chs arbitrary: s)
  case Nil
  then show ?case by (simp add: nextDirty_def split: if_splits)
next
  case (Cons ch chs)
  show ?case
  proof (cases "states s = []")
    case True
    with Cons.prems show ?thesis by (simp add: nextDirty_def)
  next
    case False
    then obtain p st where pick: "nextDirty ch (states s) = (p, st, True)"
      by (simp add: nextDirty_def)
    obtain r s1 where it:
      "Dispatch_matchers c (enumerate 0 (matchers s)) p st (SetState p Clean s) = (r, s1)"
      by (cases "Dispatch_matchers c (enumerate 0 (matchers s)) p st (SetState p Clean s)")
    show ?thesis
    proof (cases r)
      case None
      with Cons.prems pick it have "Dispatch c chs s1 = Some (Some err, s')" by simp
      moreover from Dispatch_matchers_same_matchers[OF it] have "matchers s1 = matchers s" by simp
      ultimately show ?thesis using Cons.IH[of s1] by simp
    next
      case (Some err')
      with Cons.prems pick it have "Dispatch_matchers c (enumerate 0 (matchers s)) p st (SetState p Clean s)
          = (Some err, s')" by simp
      from Dispatch_matchers_error_source[OF this] obtain i m s0
        where "(i, m) \<in> set (enumerate 0 (matchers s))" "pattern m p"
          "run_action c (f m p st (world s0)) (s0\<lparr>trace := trace s0 @ [Invoked i p st]\<rparr>) = (Some err, s')"
        by blast
      then show ?thesis by (auto simp: in_set_enumerate_eq)
    qed
  qed
qed

text \<open>
  C4. Take any iteration of the loop of \<open>Dispatch\<close>: \<open>nextDirty\<close> returns \<open>path\<close>, the
  matchers before \<open>m\<close> are passed without an error and lead to the state \<open>s0\<close>, and the
  handler of \<open>m\<close>, invoked on \<open>path\<close>, returns the error \<open>err\<close> in the state \<open>s1\<close>. Then
  \<open>Dispatch\<close> returns \<open>err\<close> and the package state is \<open>s1\<close>: the handlers of the matchers
  after \<open>m\<close> are not invoked, no further path is taken, and the dirty set is the one the
  failing handler left. As the loop continues with the state of the iteration before,
  the start state \<open>s\<close> stands for the state at the start of any iteration.
\<close>

theorem Dispatch_fails_fast:
  assumes pick: "nextDirty ch (states s) = (path, state, True)"
    and ms: "matchers s = ms1 @ m # ms2"
    and before: "Dispatch_matchers compile (enumerate 0 ms1) path state (SetState path Clean s) = (None, s0)"
    and matches: "pattern m path"
    and fail: "run_action compile (f m path state (world s0))
                 (s0\<lparr>trace := trace s0 @ [Invoked (length ms1) path state]\<rparr>) = (Some err, s1)"
  shows "Dispatch compile (ch # chs) s = Some (Some err, s1)"
proof -
  have "enumerate 0 (matchers s) = enumerate 0 ms1 @ (length ms1, m) # enumerate (Suc (length ms1)) ms2"
    by (simp add: ms enumerate_append_eq)
  then have "Dispatch_matchers compile (enumerate 0 (matchers s)) path state (SetState path Clean s)
      = (Some err, s1)"
    using before matches fail by (simp add: Dispatch_matchers_append)
  with pick show ?thesis by simp
qed

theorem Dispatch_fails_fast_witness:
  "nextDirty 0 (states first_fails) = (''a'', Changed, True) \<and>
   matchers first_fails = [\<lparr>pattern = (\<lambda>p. True), f = succeeds\<rparr>]
      @ \<lparr>pattern = (\<lambda>p. p = ''a''), f = fails\<rparr> # [\<lparr>pattern = (\<lambda>p. True), f = succeeds\<rparr>] \<and>
   Dispatch example_Compile [0, 0] first_fails =
     Some (Some ''boom'',
           first_fails\<lparr>states := [(''b'', Changed)],
                       trace := [Logged ''a'' Clean, Invoked 0 ''a'' Changed, Invoked 1 ''a'' Changed]\<rparr>)"
proof -
  let ?m0 = "\<lparr>pattern = (\<lambda>p. True), f = succeeds\<rparr>"
  let ?m1 = "\<lparr>pattern = (\<lambda>p. p = ''a''), f = fails\<rparr>"
  let ?s0 = "first_fails\<lparr>states := [(''b'', Changed)],
                         trace := [Logged ''a'' Clean, Invoked 0 ''a'' Changed]\<rparr>"
  let ?s1 = "first_fails\<lparr>states := [(''b'', Changed)],
                         trace := [Logged ''a'' Clean, Invoked 0 ''a'' Changed, Invoked 1 ''a'' Changed]\<rparr>"
  have pick: "nextDirty 0 (states first_fails) = (''a'', Changed, True)"
    by (simp add: nextDirty_def first_fails_def empty_gw_def)
  have ms: "matchers first_fails = [?m0] @ ?m1 # [?m0]"
    by (simp add: first_fails_def empty_gw_def)
  have before: "Dispatch_matchers example_Compile (enumerate 0 [?m0]) ''a'' Changed
                  (SetState ''a'' Clean first_fails) = (None, ?s0)"
    by (simp add: SetState_def hasMatcher_def first_fails_def empty_gw_def succeeds_def)
  have matches: "pattern ?m1 ''a''" by simp
  have fail: "run_action example_Compile (f ?m1 ''a'' Changed (world ?s0))
                (?s0\<lparr>trace := trace ?s0 @ [Invoked (length [?m0]) ''a'' Changed]\<rparr>) = (Some ''boom'', ?s1)"
    by (simp add: fails_def first_fails_def empty_gw_def)
  from Dispatch_fails_fast[OF pick ms before matches fail, of "[0]"] pick ms
  show ?thesis by simp
qed

section \<open>Paths marked dirty during a run\<close>

lemma split_append:
  assumes "xs @ ys = u @ e # v"
  shows "(\<exists>w. xs = u @ e # w \<and> v = w @ ys) \<or> (\<exists>w. u = xs @ w \<and> ys = w @ e # v)"
proof -
  from assms consider w where "xs = u @ w" "w @ ys = e # v" | w where "xs @ w = u" "ys = w @ e # v"
    by (auto simp: append_eq_append_conv2)
  then show ?thesis
  proof cases
    case 1
    show ?thesis
    proof (cases w)
      case Nil
      with 1 show ?thesis by auto
    next
      case (Cons a w')
      with 1 show ?thesis by auto
    qed
  next
    case 2
    then show ?thesis by auto
  qed
qed

lemma SetState_Clean_trace:
  "\<exists>l. trace (SetState p Clean s) = trace s @ l \<and> set l \<subseteq> {Logged p Clean}"
  by (simp add: SetState_def Let_def)

lemma Dispatch_matchers_never_clean:
  assumes "handlers_never_clean (matchers s0)" and "ims = enumerate 0 (matchers s0)"
    and "Dispatch_matchers c ims p st s = (e, s')"
  shows "dirty s \<subseteq> dirty s' \<and>
         (\<exists>t. trace s' = trace s @ t \<and> (\<forall>q x. Logged q x \<in> set t \<longrightarrow> q \<in> dirty s'))"
proof -
  let ?R = "\<lambda>a b :: 'a gw. dirty a \<subseteq> dirty b \<and>
              (\<exists>t. trace b = trace a @ t \<and> (\<forall>q x. Logged q x \<in> set t \<longrightarrow> q \<in> dirty b))"
  have hs: "\<forall>(i, m) \<in> set ims. pattern m p \<longrightarrow> (\<forall>w. calls_with (\<lambda>x. x \<noteq> Clean) (f m p st w))"
    using assms(1,2) by (auto simp: handlers_never_clean_def enumerate_eq_zip dest: set_zip_rightD)
  show ?thesis
  proof (rule Dispatch_matchers_rel[where R = ?R and ok = "\<lambda>x. x \<noteq> Clean", OF _ _ _ _ _ hs assms(3)])
    show "\<And>s. ?R s s" by simp
  next
    fix a b c :: "'a gw" assume "?R a b" "?R b c"
    then obtain t u where ab: "dirty a \<subseteq> dirty b" "trace b = trace a @ t"
        "\<forall>q x. Logged q x \<in> set t \<longrightarrow> q \<in> dirty b"
      and bc: "dirty b \<subseteq> dirty c" "trace c = trace b @ u"
        "\<forall>q x. Logged q x \<in> set u \<longrightarrow> q \<in> dirty c" by blast
    have "trace c = trace a @ (t @ u)" using ab(2) bc(2) by simp
    moreover have "\<forall>q x. Logged q x \<in> set (t @ u) \<longrightarrow> q \<in> dirty c"
      using ab(3) bc(1,3) by auto
    moreover have "dirty a \<subseteq> dirty c" using ab(1) bc(1) by blast
    ultimately show "?R a c" by blast
  next
    fix p st and s :: "'a gw" assume "st \<noteq> Clean"
    then show "?R s (SetState p st s)"
      by (auto simp: dirty_SetState) (auto simp: SetState_def Let_def)
  next
    show "\<And>w s. ?R s (s\<lparr>world := w\<rparr>)" by (simp add: dirty_def)
  next
    show "\<And>i s. ?R s (s\<lparr>trace := trace s @ [Invoked i p st]\<rparr>)" by (simp add: dirty_def)
  qed
qed

lemma Dispatch_matchers_all_invoked:
  assumes "Dispatch_matchers c (enumerate 0 ms) p st s = (None, s')"
    and "i < length ms" and "pattern (ms ! i) p"
  shows "\<exists>t. trace s' = trace s @ t \<and> Invoked i p st \<in> set t"
proof -
  from Dispatch_matchers_invocations[OF assms(1)] obtain t
    where t: "trace s' = trace s @ t"
      "invocations t = map (\<lambda>i. Invoked i p st) (HandlersFor ms p)"
    by (auto simp only: matching_enumerate)
  from assms(2,3) have "i \<in> set (HandlersFor ms p)" by (simp add: HandlersFor_def)
  then have "Invoked i p st \<in> set (invocations t)" by (simp add: t(2))
  then have "Invoked i p st \<in> set t" by (simp add: invocations_def)
  with t(1) show ?thesis by blast
qed

lemma Dispatch_serves:
  assumes "handlers_never_clean (matchers s)" and "Dispatch c chs s = Some (None, s')"
  shows "\<exists>t. trace s' = trace s @ t
    \<and> (\<forall>q \<in> dirty s. \<forall>i < length (matchers s). pattern (matchers s ! i) q \<longrightarrow>
          (\<exists>y. Invoked i q y \<in> set t))
    \<and> (\<forall>t1 t2 q x. t = t1 @ Logged q x # t2 \<and> x \<noteq> Clean \<longrightarrow>
          (\<forall>i < length (matchers s). pattern (matchers s ! i) q \<longrightarrow>
             (\<exists>y. Invoked i q y \<in> set t2)))"
  using assms
proof (induction chs arbitrary: s)
  case Nil
  then have "states s = []" "s' = s" by (auto simp: nextDirty_def split: if_splits)
  then show ?case by (simp add: dirty_def)
next
  case (Cons ch chs)
  show ?case
  proof (cases "states s = []")
    case True
    with Cons.prems have "s' = s" by (simp add: nextDirty_def)
    with True show ?thesis by (simp add: dirty_def)
  next
    case False
    let ?ms = "matchers s"
    let ?s0 = "SetState p Clean s"
    from False obtain p st where pick: "nextDirty ch (states s) = (p, st, True)"
      by (simp add: nextDirty_def)
    let ?s0 = "SetState p Clean s"
    obtain r s1 where it: "Dispatch_matchers c (enumerate 0 ?ms) p st ?s0 = (r, s1)"
      by (cases "Dispatch_matchers c (enumerate 0 ?ms) p st ?s0")
    from Cons.prems(2) pick it have r: "r = None" and rest: "Dispatch c chs s1 = Some (None, s')"
      by (auto split: option.splits)
    from SetState_Clean_trace[of p s] obtain l0
      where l0: "trace ?s0 = trace s @ l0" "set l0 \<subseteq> {Logged p Clean}" by blast
    from Dispatch_matchers_never_clean[OF Cons.prems(1) refl it] obtain t1
      where d01: "dirty ?s0 \<subseteq> dirty s1" and t1: "trace s1 = trace ?s0 @ t1"
        and marked: "\<forall>q x. Logged q x \<in> set t1 \<longrightarrow> q \<in> dirty s1" by blast
    from Dispatch_matchers_same_matchers[OF it] have ms1: "matchers s1 = ?ms" by simp
    with Cons.prems(1) have nc1: "handlers_never_clean (matchers s1)" by simp
    from Cons.IH[OF nc1 rest] ms1 obtain t2
      where t2: "trace s' = trace s1 @ t2"
        and A2: "\<forall>q \<in> dirty s1. \<forall>i < length ?ms. pattern (?ms ! i) q \<longrightarrow> (\<exists>y. Invoked i q y \<in> set t2)"
        and B2: "\<forall>u1 u2 q x. t2 = u1 @ Logged q x # u2 \<and> x \<noteq> Clean \<longrightarrow>
                   (\<forall>i < length ?ms. pattern (?ms ! i) q \<longrightarrow> (\<exists>y. Invoked i q y \<in> set u2))"
      by auto
    let ?t = "(l0 @ t1) @ t2"
    have tr: "trace s' = trace s @ ?t" using l0(1) t1 t2 by simp
    have A: "\<forall>q \<in> dirty s. \<forall>i < length ?ms. pattern (?ms ! i) q \<longrightarrow> (\<exists>y. Invoked i q y \<in> set ?t)"
    proof (intro ballI allI impI)
      fix q i assume q: "q \<in> dirty s" and i: "i < length ?ms" "pattern (?ms ! i) q"
      show "\<exists>y. Invoked i q y \<in> set ?t"
      proof (cases "q = p")
        case True
        from it r have "Dispatch_matchers c (enumerate 0 ?ms) p st ?s0 = (None, s1)" by simp
        from Dispatch_matchers_all_invoked[OF this i(1)] i(2) True t1
        have "Invoked i p st \<in> set t1" by auto
        with True show ?thesis by auto
      next
        case False
        with q have "q \<in> dirty ?s0" by (simp add: dirty_SetState)
        with d01 have "q \<in> dirty s1" by blast
        with A2 i obtain y where "Invoked i q y \<in> set t2" by blast
        then show ?thesis by auto
      qed
    qed
    have B: "\<forall>u1 u2 q x. ?t = u1 @ Logged q x # u2 \<and> x \<noteq> Clean \<longrightarrow>
               (\<forall>i < length ?ms. pattern (?ms ! i) q \<longrightarrow> (\<exists>y. Invoked i q y \<in> set u2))"
    proof (intro allI impI)
      fix u1 u2 q x i
      assume sp: "?t = u1 @ Logged q x # u2 \<and> x \<noteq> Clean"
        and i: "i < length ?ms" "pattern (?ms ! i) q"
      from sp have eq: "(l0 @ t1) @ t2 = u1 @ Logged q x # u2" and x: "x \<noteq> Clean" by simp_all
      from split_append[OF eq] show "\<exists>y. Invoked i q y \<in> set u2"
      proof
        assume "\<exists>w. l0 @ t1 = u1 @ Logged q x # w \<and> u2 = w @ t2"
        then obtain w where w: "l0 @ t1 = u1 @ Logged q x # w" "u2 = w @ t2" by blast
        from w(1) have "Logged q x \<in> set (l0 @ t1)" by simp
        with l0(2) x have "Logged q x \<in> set t1" by auto
        with marked have "q \<in> dirty s1" by blast
        with A2 i obtain y where "Invoked i q y \<in> set t2" by blast
        with w(2) show ?thesis by auto
      next
        assume "\<exists>w. u1 = (l0 @ t1) @ w \<and> t2 = w @ Logged q x # u2"
        then obtain w where "t2 = w @ Logged q x # u2" by blast
        with B2 x i show ?thesis by blast
      qed
    qed
    from tr A B show ?thesis by blast
  qed
qed

text \<open>
  C5, as the code has it. Take a run of \<open>Dispatch\<close> that returns nil, with handlers that
  never pass \<open>Clean\<close> to \<open>SetState\<close> or \<open>SetStates\<close>. During the run only handlers call
  \<open>SetState\<close> with another state, so a \<open>Log\<close> call with a state other than \<open>Clean\<close> is a
  handler marking the path \<open>q\<close> dirty. Every handler whose pattern matches \<open>q\<close> is then
  invoked on \<open>q\<close> later in the same run.
\<close>

theorem Dispatch_serves_marked_paths:
  assumes "Dispatch compile chs s = Some (None, s')"
    and "handlers_never_clean (matchers s)"
    and "trace s' = trace s @ t1 @ Logged q x # t2" and "x \<noteq> Clean"
    and "i < length (matchers s)" and "pattern (matchers s ! i) q"
  shows "\<exists>y. Invoked i q y \<in> set t2"
proof -
  from Dispatch_serves[OF assms(2,1)] obtain t
    where t: "trace s' = trace s @ t"
      and B: "\<forall>t1 t2 q x. t = t1 @ Logged q x # t2 \<and> x \<noteq> Clean \<longrightarrow>
          (\<forall>i < length (matchers s). pattern (matchers s ! i) q \<longrightarrow>
             (\<exists>y. Invoked i q y \<in> set t2))" by blast
  from t assms(3) have "t = t1 @ Logged q x # t2" by simp
  with B assms(4,5,6) show ?thesis by blast
qed

theorem Dispatch_serves_marked_paths_witness:
  "Dispatch example_Compile [0, 0] a_marks_b =
     Some (None, a_marks_b\<lparr>states := [],
             trace := [Logged ''a'' Clean, Invoked 0 ''a'' Changed, Logged ''b'' Changed,
                       Logged ''b'' Clean, Invoked 1 ''b'' Changed]\<rparr>)
   \<and> handlers_never_clean (matchers a_marks_b)
   \<and> (1::nat) < length (matchers a_marks_b) \<and> pattern (matchers a_marks_b ! 1) ''b''
   \<and> (\<exists>y. Invoked 1 ''b'' y \<in> set [Logged ''b'' Clean, Invoked 1 ''b'' Changed])"
proof -
  let ?s' = "a_marks_b\<lparr>states := [],
             trace := [Logged ''a'' Clean, Invoked 0 ''a'' Changed, Logged ''b'' Changed,
                       Logged ''b'' Clean, Invoked 1 ''b'' Changed]\<rparr>"
  have run: "Dispatch example_Compile [0, 0] a_marks_b = Some (None, ?s')"
    by (simp add: nextDirty_def SetState_def hasMatcher_def a_marks_b_def empty_gw_def
        marks_b_def succeeds_def enumerate_eq_zip upt_rec)
  have nc: "handlers_never_clean (matchers a_marks_b)"
    by (simp add: handlers_never_clean_def a_marks_b_def empty_gw_def marks_b_def succeeds_def)
  have tr: "trace ?s' = trace a_marks_b @ [Logged ''a'' Clean, Invoked 0 ''a'' Changed]
              @ Logged ''b'' Changed # [Logged ''b'' Clean, Invoked 1 ''b'' Changed]"
    by (simp add: a_marks_b_def empty_gw_def)
  have x: "Changed \<noteq> Clean" by simp
  have i: "(1::nat) < length (matchers a_marks_b)" by (simp add: a_marks_b_def empty_gw_def)
  have m: "pattern (matchers a_marks_b ! 1) ''b''" by (simp add: a_marks_b_def empty_gw_def)
  from Dispatch_serves_marked_paths[OF run nc tr x i m] run nc i m show ?thesis by blast
qed

text \<open>
  C5, as the claim states it, fails. In the first run the handler of \<open>a\<close> marks \<open>b\<close>
  dirty and returns an error: \<open>Dispatch\<close> returns the error, \<open>b\<close> is still dirty and
  its handler has not been invoked. In the second run the handler marks \<open>b\<close> dirty
  and resets it: \<open>Dispatch\<close> returns nil and the handler of \<open>b\<close> has not been invoked.
\<close>

theorem Dispatch_marked_not_served_counterexample:
  "Dispatch example_Compile [0, 0] a_marks_b_and_fails =
     Some (Some ''boom'', a_marks_b_and_fails\<lparr>states := [(''b'', Changed)],
             trace := [Logged ''a'' Clean, Invoked 0 ''a'' Changed, Logged ''b'' Changed]\<rparr>)
   \<and> Dispatch example_Compile [0, 0] a_marks_b_and_resets =
     Some (None, a_marks_b_and_resets\<lparr>states := [],
             trace := [Logged ''a'' Clean, Invoked 0 ''a'' Changed, Logged ''b'' Changed,
                       Logged ''b'' Clean]\<rparr>)"
  by (simp add: nextDirty_def SetState_def hasMatcher_def a_marks_b_and_fails_def
      a_marks_b_and_resets_def empty_gw_def marks_b_and_fails_def marks_b_and_resets_def
      succeeds_def enumerate_eq_zip upt_rec)

section \<open>What Watch returns\<close>

lemma watchRecursive_error:
  "watchRecursive add vs w s = (Some e, w', s') \<Longrightarrow> e \<in> walk_errors add vs"
proof (induction vs arbitrary: w s)
  case Nil
  then show ?case by simp
next
  case (Cons v vs)
  have sub: "walk_errors add vs \<subseteq> walk_errors add (v # vs)"
    by (auto simp: walk_errors_def)
  show ?case
  proof (cases "verr v")
    case (Some err)
    with Cons.prems show ?thesis by (auto simp: walk_errors_def)
  next
    case None
    show ?thesis
    proof (cases "\<not> visdir v \<or> hasIgnore s (vpath v)")
      case True
      with Cons.prems None have "watchRecursive add vs w s = (Some e, w', s')" by simp
      from Cons.IH[OF this] sub show ?thesis by blast
    next
      case False
      show ?thesis
      proof (cases "add (vpath v)")
        case (Some err)
        with Cons.prems None False have "err = e" by simp
        with Some show ?thesis by (auto simp: walk_errors_def)
      next
        case a: None
        with Cons.prems None False
        have "watchRecursive add vs (w @ [vpath v]) (SetState (vpath v) Clean s) = (Some e, w', s')"
          by simp
        from Cons.IH[OF this] sub show ?thesis by blast
      qed
    qed
  qed
qed

lemma Watch_created_error:
  "Watch_created add ev w s = (Some e, w', s') \<Longrightarrow> e \<in> ready_errors add (Events ev)"
  by (auto simp: Watch_created_def split: if_splits sum.splits dest: watchRecursive_error)

lemma Watch_loop_error:
  "Watch_loop c add rs w s = Some (Returned e s') \<Longrightarrow> e \<in> (\<Union>r \<in> set rs. ready_errors add r)"
proof (induction rs arbitrary: w s)
  case Nil
  then show ?case by simp
next
  case (Cons r rs)
  show ?case
  proof (cases r)
    case (TimeAfter chs)
    with Cons.prems obtain x s1 where "Dispatch c chs s = Some (x, s1)"
      and "Watch_loop c add rs w s1 = Some (Returned e s')"
      by (auto split: option.splits)
    from Cons.IH[OF this(2)] show ?thesis by simp
  next
    case (Events ev)
    show ?thesis
    proof (cases "hasIgnore s (Name ev)")
      case True
      with Cons.prems Events have "Watch_loop c add rs w s = Some (Returned e s')" by simp
      from Cons.IH[OF this] show ?thesis by simp
    next
      case False
      obtain x w1 s1 where cr: "Watch_created add ev w s = (x, w1, s1)"
        by (cases "Watch_created add ev w s")
      show ?thesis
      proof (cases x)
        case None
        with Cons.prems Events False cr
        have "Watch_loop c add rs w1 (SetState (Name ev) (if Remove ev then Deleted else Changed) s1)
                = Some (Returned e s')" by simp
        from Cons.IH[OF this] show ?thesis by simp
      next
        case (Some err)
        with Cons.prems Events False cr have "err = e" by simp
        with Some cr have "Watch_created add ev w s = (Some e, w1, s1)" by simp
        from Watch_created_error[OF this] Events show ?thesis by simp
      qed
    qed
  next
    case (Errors err)
    with Cons.prems show ?thesis by simp
  qed
qed

text \<open>In the trigger variant the loop ends only with an error read from \<open>w.Errors\<close>.\<close>

lemma Watch_t_loop_error:
  "Watch_t_loop c n add rs w s = Some (Returned_t e s') \<Longrightarrow> Errors_t e \<in> set rs"
proof (induction rs arbitrary: w s)
  case Nil
  then show ?case by simp
next
  case (Cons r rs)
  show ?case
  proof (cases r)
    case (Events_t ev)
    with Cons.prems have "\<exists>w1 s1. Watch_t_loop c n add rs w1 s1 = Some (Returned_t e s')"
      by (auto split: if_splits prod.splits option.splits sum.splits)
    then show ?thesis using Cons.IH by auto
  next
    case (Errors_t err)
    with Cons.prems show ?thesis by simp
  qed
qed

text \<open>
  C2, as the code has it. \<open>Watch\<close> discards the result of \<open>Dispatch\<close> and goes on with
  the loop. An error that \<open>Watch\<close> returns comes from the watcher or the file system
  (\<open>fsnotify.NewWatcher\<close>, a walk, \<open>w.Add\<close>, \<open>os.Stat\<close>, the channel \<open>w.Errors\<close>),
  whatever the handlers return.
\<close>

theorem Watch_returns_watcher_errors:
  assumes "Watch compile newWatcher add root rs s = Some (Returned e s')"
  shows "e \<in> watcher_errors newWatcher add root rs"
proof (cases newWatcher)
  case (Some err)
  with assms show ?thesis by (simp add: Watch_def watcher_errors_def)
next
  case None
  obtain x w1 s1 where wr: "watchRecursive add root [] s = (x, w1, s1)"
    by (cases "watchRecursive add root [] s")
  show ?thesis
  proof (cases x)
    case (Some err)
    with assms None wr have "watchRecursive add root [] s = (Some e, w1, s1)"
      by (simp add: Watch_def)
    from watchRecursive_error[OF this] show ?thesis by (simp add: watcher_errors_def)
  next
    case n: None
    with assms None wr have "Watch_loop compile add rs w1 s1 = Some (Returned e s')"
      by (simp add: Watch_def)
    from Watch_loop_error[OF this] show ?thesis by (simp add: watcher_errors_def)
  qed
qed

theorem Watch_returns_watcher_errors_witness:
  "Watch example_Compile None (\<lambda>p. None) [] [TimeAfter [0], Errors ''closed''] a_fails
     = Some (Returned ''closed''
         (a_fails\<lparr>states := [], trace := [Logged ''a'' Clean, Invoked 0 ''a'' Changed]\<rparr>))
   \<and> ''closed'' \<in> watcher_errors None (\<lambda>p. None) [] [TimeAfter [0], Errors ''closed'']"
proof -
  have r: "Watch example_Compile None (\<lambda>p. None) [] [TimeAfter [0], Errors ''closed''] a_fails
     = Some (Returned ''closed''
         (a_fails\<lparr>states := [], trace := [Logged ''a'' Clean, Invoked 0 ''a'' Changed]\<rparr>))"
    by (simp add: Watch_def nextDirty_def SetState_def hasMatcher_def a_fails_def empty_gw_def
        fails_def enumerate_eq_zip)
  from r Watch_returns_watcher_errors[OF r] show ?thesis by simp
qed

text \<open>
  C2, as the claim states it, fails in both variants. In the first, the handler of
  \<open>a\<close> returns an error during the \<open>Dispatch\<close> of the timer case; \<open>Watch\<close> does not
  return, it handles the next event and waits. In the second, the error of the
  registered function is printed and the loop waits for the next event.
\<close>

theorem Watch_swallows_handler_error_counterexample:
  "Dispatch example_Compile [0] a_fails
     = Some (Some ''boom'',
         a_fails\<lparr>states := [], trace := [Logged ''a'' Clean, Invoked 0 ''a'' Changed]\<rparr>)
   \<and> Watch example_Compile None (\<lambda>p. None) [] [TimeAfter [0], Events write_a] a_fails
     = Some (Waiting
         (a_fails\<lparr>trace := [Logged ''a'' Clean, Invoked 0 ''a'' Changed, Logged ''a'' Changed]\<rparr>))
   \<and> Watch_t example_Compile 1 None (\<lambda>p. None) [] [Events_t write_a_t] a_fails_t
     = Some (Waiting_t
         (a_fails_t\<lparr>stdout := [''triggering a'', ''boom''], called := [(0, ''a'', False)]\<rparr>))"
  by (simp add: Watch_def Watch_t_def nextDirty_def SetState_def hasMatcher_def hasIgnore_def
      a_fails_def a_fails_t_def empty_gw_def empty_tgw_def fails_def enumerate_eq_zip
      write_a_def write_a_t_def Watch_created_def shouldIgnore_def findMatcher_def
      example_Compile_def plain_file_def)

end
